theory Spec2Isabelle
  imports Main "HOL-Library.Word" "HOL-Library.Multiset"
begin

section \<open>Data model of package graceful\<close>

text \<open>
  \<^verbatim>\<open>time.Duration\<close> is a signed 64-bit count of nanoseconds; \<^verbatim>\<open>time.Second\<close> is
  \<open>10^9\<close> of them.
\<close>

type_synonym Duration = "64 word"

definition Second :: Duration where
  "Second = 1000000000"

text \<open>A non-nil Go \<^verbatim>\<open>error\<close> is identified by its message; \<^verbatim>\<open>nil\<close> is \<open>None\<close>.\<close>

type_synonym error = string

text \<open>
  The logger is an external collaborator. A \<^verbatim>\<open>log.Logger\<close> value is a handle; what is
  written to it is an \<open>event\<close>: level, message and structured fields
  (\<^verbatim>\<open>log.String(key, value)\<close>, \<^verbatim>\<open>log.Err(err)\<close>).
\<close>

datatype Logger = Logger nat

datatype level = Info | Warn | Error

datatype Field = String string string | Err error

datatype event = Event level string "Field list"

text \<open>
  The only context the package creates is
  \<^verbatim>\<open>context.WithTimeout(context.Background(), m.timeout)\<close>. Whether it is done is part of
  the run-time state below.
\<close>

datatype Context = WithTimeout Duration

text \<open>
  A \<^verbatim>\<open>ShutdownFunc\<close> is opaque code \<^verbatim>\<open>func(ctx context.Context) error\<close>. All the
  coordinator can observe of a call is: log calls on the manager's logger, reads of the
  context's cancellation, whether the call returns, and the error it returns. A call is
  therefore a finite tree of such steps:
  \<^item> \<open>Return r\<close>: the function returns \<open>r\<close>;
  \<^item> \<open>Log e p\<close>: a log call with event \<open>e\<close>, then \<open>p\<close>;
  \<^item> \<open>IfDone p q\<close>: a non-blocking test of \<^verbatim>\<open>ctx.Err() != nil\<close>, then \<open>p\<close> or \<open>q\<close>;
  \<^item> \<open>AwaitDone p\<close>: \<^verbatim>\<open><-ctx.Done()\<close>, blocking until the context is done, then \<open>p\<close>;
  \<^item> \<open>Forever\<close>: the call never returns.
\<close>

datatype proc =
    Return "error option"
  | Log event proc
  | IfDone proc proc
  | AwaitDone proc
  | Forever

type_synonym ShutdownFunc = "Context \<Rightarrow> proc"

text \<open>
  \<^verbatim>\<open>type Manager struct { timeout; callbacks; mu; logger }\<close>. The mutex has no field of
  its own: the two critical sections it guards (the append in \<^verbatim>\<open>Register\<close>, the copy in
  \<^verbatim>\<open>Shutdown\<close>) are single atomic steps of the model.
\<close>

record Manager =
  timeout :: Duration
  callbacks :: "ShutdownFunc list"
  logger :: Logger

section \<open>Construction and registration\<close>

definition NewManager :: "Duration \<Rightarrow> Logger \<Rightarrow> Manager" where
  "NewManager t l =
     \<lparr>timeout = (if word_sle t 0 then 30 * Second else t), callbacks = [], logger = l\<rparr>"

definition Register :: "Manager \<Rightarrow> ShutdownFunc \<Rightarrow> Manager" where
  "Register m f = m\<lparr>callbacks := callbacks m @ [f]\<rparr>"

definition RegisterWithName :: "Manager \<Rightarrow> string \<Rightarrow> ShutdownFunc \<Rightarrow> Manager" where
  "RegisterWithName m name f =
     Register m (\<lambda>c. Log (Event Info ''shutting down component'' [String ''component'' name]) (f c))"

section \<open>A shutdown session as an interleaving of goroutines\<close>

text \<open>
  \<^verbatim>\<open>Shutdown\<close> runs the main goroutine, one goroutine per callback, and one goroutine
  that waits on the \<^verbatim>\<open>WaitGroup\<close> and closes \<^verbatim>\<open>done\<close>. The model is a labelled
  transition system: the label says which goroutine (or which part of the environment:
  the deadline timer, the signal source, a concurrent \<^verbatim>\<open>Register\<close> call) takes the next
  atomic step. A step that would block is not enabled (\<open>None\<close>).
\<close>

datatype goroutine = MainG | TaskG nat

datatype status =
    Created
  | Running proc
  | Exiting "error option"
  | Finished "error option"

record task =
  fn :: ShutdownFunc
  status :: status

datatype pc =
    AwaitSignal
  | Start
  | Snapshot
  | MakeChan
  | Loop int
  | SpawnWaiter
  | Select
  | CloseErr
  | Drain
  | Cancel
  | Returned

datatype wstatus = NoWaiter | Waiting | Closing | WaiterDone

record state =
  mgr :: Manager
  pc :: pc
  ctx :: "Context option"
  ctx_done :: bool
  snap :: "ShutdownFunc list"
  wg :: int
  errChan :: "error list"
  errCap :: nat
  errClosed :: bool
  done_closed :: bool
  tasks :: "task list"
  waiter :: wstatus
  logs :: "(goroutine \<times> event) list"
  panicked :: bool

definition emit :: "goroutine \<Rightarrow> event \<Rightarrow> state \<Rightarrow> state" where
  "emit g e s = s\<lparr>logs := logs s @ [(g, e)]\<rparr>"

definition set_status :: "nat \<Rightarrow> status \<Rightarrow> state \<Rightarrow> state" where
  "set_status i st s = s\<lparr>tasks := (tasks s)[i := (tasks s ! i)\<lparr>status := st\<rparr>]\<rparr>"

text \<open>
  The main goroutine, one source statement per step. \<open>Select\<close> here is the
  \<^verbatim>\<open>case <-done\<close> branch; the \<^verbatim>\<open>case <-ctx.Done()\<close> branch is \<open>timeout_step\<close>.
  \<open>Loop i\<close> is the head of the launching loop with its counter; an index out of
  range would be a run-time panic.
\<close>

definition main_step :: "state \<Rightarrow> state option" where
  "main_step s =
     (case pc s of
        AwaitSignal \<Rightarrow> None
      | Start \<Rightarrow> Some (s\<lparr>ctx := Some (WithTimeout (timeout (mgr s))), pc := Snapshot\<rparr>)
      | Snapshot \<Rightarrow> Some (s\<lparr>snap := callbacks (mgr s), pc := MakeChan\<rparr>)
      | MakeChan \<Rightarrow>
          Some (s\<lparr>wg := 0, errChan := [], errCap := length (snap s), errClosed := False,
                  pc := Loop (int (length (snap s)) - 1)\<rparr>)
      | Loop i \<Rightarrow>
          if 0 \<le> i then
            (if nat i < length (snap s) then
               Some (s\<lparr>wg := wg s + 1,
                       tasks := tasks s @ [\<lparr>fn = snap s ! nat i, status = Created\<rparr>],
                       pc := Loop (i - 1)\<rparr>)
             else Some (s\<lparr>panicked := True\<rparr>))
          else Some (s\<lparr>pc := SpawnWaiter\<rparr>)
      | SpawnWaiter \<Rightarrow> Some (s\<lparr>done_closed := False, waiter := Waiting, pc := Select\<rparr>)
      | Select \<Rightarrow>
          if done_closed s then
            Some (emit MainG (Event Info ''graceful shutdown completed'' []) (s\<lparr>pc := CloseErr\<rparr>))
          else None
      | CloseErr \<Rightarrow> Some (s\<lparr>errClosed := True, pc := Drain\<rparr>)
      | Drain \<Rightarrow>
          (case errChan s of
             e # es \<Rightarrow> Some (emit MainG (Event Error ''shutdown error'' [Err e]) (s\<lparr>errChan := es\<rparr>))
           | [] \<Rightarrow> if errClosed s then Some (s\<lparr>pc := Cancel\<rparr>) else None)
      | Cancel \<Rightarrow> Some (s\<lparr>ctx_done := True, pc := Returned\<rparr>)
      | Returned \<Rightarrow> None)"

definition timeout_step :: "state \<Rightarrow> state option" where
  "timeout_step s =
     (if pc s = Select \<and> ctx_done s then
        Some (emit MainG (Event Warn ''graceful shutdown timeout, forcing exit'' []) (s\<lparr>pc := CloseErr\<rparr>))
      else None)"

text \<open>The goroutine \<^verbatim>\<open>go func() { wg.Wait(); close(done) }()\<close>.\<close>

definition waiter_step :: "state \<Rightarrow> state option" where
  "waiter_step s =
     (case waiter s of
        Waiting \<Rightarrow> if wg s = 0 then Some (s\<lparr>waiter := Closing\<rparr>) else None
      | Closing \<Rightarrow> Some (s\<lparr>done_closed := True, waiter := WaiterDone\<rparr>)
      | _ \<Rightarrow> None)"

text \<open>
  The goroutine of one callback:
  \<^verbatim>\<open>defer wg.Done(); if err := fn(ctx); err != nil { errChan <- err }\<close>.
  A send on a closed channel panics; a send on a full channel blocks; \<^verbatim>\<open>wg.Done()\<close>
  below zero panics. Returning an error and sending it are one step (the return itself
  touches no shared state).
\<close>

definition proc_step :: "nat \<Rightarrow> proc \<Rightarrow> state \<Rightarrow> state option" where
  "proc_step i p s =
     (case p of
        Log e q \<Rightarrow> Some (set_status i (Running q) (emit (TaskG i) e s))
      | IfDone a b \<Rightarrow> Some (set_status i (Running (if ctx_done s then a else b)) s)
      | AwaitDone q \<Rightarrow> if ctx_done s then Some (set_status i (Running q) s) else None
      | Forever \<Rightarrow> None
      | Return None \<Rightarrow> Some (set_status i (Exiting None) s)
      | Return (Some e) \<Rightarrow>
          if errClosed s then Some (s\<lparr>panicked := True\<rparr>)
          else if length (errChan s) < errCap s then
            Some (set_status i (Exiting (Some e)) (s\<lparr>errChan := errChan s @ [e]\<rparr>))
          else None)"

definition task_step :: "nat \<Rightarrow> state \<Rightarrow> state option" where
  "task_step i s =
     (if i < length (tasks s) then
        (case status (tasks s ! i) of
           Created \<Rightarrow>
             (case ctx s of
                Some c \<Rightarrow> Some (set_status i (Running (fn (tasks s ! i) c)) s)
              | None \<Rightarrow> None)
         | Running p \<Rightarrow> proc_step i p s
         | Exiting r \<Rightarrow>
             if wg s \<le> 0 then Some (s\<lparr>panicked := True\<rparr>)
             else Some (set_status i (Finished r) (s\<lparr>wg := wg s - 1\<rparr>))
         | Finished r \<Rightarrow> None)
      else None)"

text \<open>
  Labels. \<open>Signal sig\<close>: the signal arrives and \<^verbatim>\<open>Wait\<close> logs it. \<open>Main\<close>, \<open>Timeout\<close>:
  the main goroutine (the two branches of the \<^verbatim>\<open>select\<close>). \<open>Expire\<close>: the deadline of
  the context passes. \<open>Reg f\<close>: some other goroutine calls \<^verbatim>\<open>m.Register(f)\<close>.
  After a panic the process is gone: nothing is enabled.
\<close>

datatype action =
    Signal string
  | Main
  | Timeout
  | Waiter
  | Task nat
  | Expire
  | Reg ShutdownFunc

definition step :: "action \<Rightarrow> state \<Rightarrow> state option" where
  "step a s =
     (if panicked s then None
      else case a of
        Signal sig \<Rightarrow>
          if pc s = AwaitSignal then
            Some (emit MainG (Event Info ''received shutdown signal'' [String ''signal'' sig])
                    (s\<lparr>pc := Start\<rparr>))
          else None
      | Main \<Rightarrow> main_step s
      | Timeout \<Rightarrow> timeout_step s
      | Waiter \<Rightarrow> waiter_step s
      | Task i \<Rightarrow> task_step i s
      | Expire \<Rightarrow> if ctx s \<noteq> None \<and> \<not> ctx_done s then Some (s\<lparr>ctx_done := True\<rparr>) else None
      | Reg f \<Rightarrow> Some (s\<lparr>mgr := Register (mgr s) f\<rparr>))"

fun run :: "action list \<Rightarrow> state \<Rightarrow> state option" where
  "run [] s = Some s"
| "run (a # as) s = (case step a s of None \<Rightarrow> None | Some s' \<Rightarrow> run as s')"

text \<open>The configuration in which a call of \<^verbatim>\<open>m.Shutdown()\<close> resp. \<^verbatim>\<open>m.Wait()\<close> starts.\<close>

definition Shutdown :: "Manager \<Rightarrow> state" where
  "Shutdown m =
     \<lparr>mgr = m, pc = Start, ctx = None, ctx_done = False, snap = [], wg = 0, errChan = [],
      errCap = 0, errClosed = False, done_closed = False, tasks = [], waiter = NoWaiter,
      logs = [], panicked = False\<rparr>"

definition Wait :: "Manager \<Rightarrow> state" where
  "Wait m = (Shutdown m)\<lparr>pc := AwaitSignal\<rparr>"

text \<open>What the main goroutine itself has logged.\<close>

definition main_logs :: "state \<Rightarrow> event list" where
  "main_logs s = map snd (filter (\<lambda>x. fst x = MainG) (logs s))"

section \<open>The process-wide singleton\<close>

text \<open>
  \<^verbatim>\<open>var defaultHook = &ShutdownHook{}\<close>: a manager pointer (nil at first) and a
  \<^verbatim>\<open>sync.Once\<close>. Managers live in a heap, a pointer is an index into it.
\<close>

record ShutdownHook =
  manager :: "nat option"
  once :: bool

record world =
  heap :: "Manager list"
  defaultHook :: ShutdownHook

definition init_world :: world where
  "init_world = \<lparr>heap = [], defaultHook = \<lparr>manager = None, once = False\<rparr>\<rparr>"

definition SetupGracefulShutdown :: "Duration \<Rightarrow> Logger \<Rightarrow> world \<Rightarrow> nat option \<times> world" where
  "SetupGracefulShutdown t l w =
     (let w' = (if once (defaultHook w) then w
                else w\<lparr>heap := heap w @ [NewManager t l],
                       defaultHook := \<lparr>manager = Some (length (heap w)), once = True\<rparr>\<rparr>)
      in (manager (defaultHook w'), w'))"

definition Register_pkg :: "ShutdownFunc \<Rightarrow> world \<Rightarrow> world" where
  "Register_pkg f w =
     (case manager (defaultHook w) of
        None \<Rightarrow> w
      | Some a \<Rightarrow> w\<lparr>heap := (heap w)[a := Register (heap w ! a) f]\<rparr>)"

definition RegisterWithName_pkg :: "string \<Rightarrow> ShutdownFunc \<Rightarrow> world \<Rightarrow> world" where
  "RegisterWithName_pkg name f w =
     (case manager (defaultHook w) of
        None \<Rightarrow> w
      | Some a \<Rightarrow> w\<lparr>heap := (heap w)[a := RegisterWithName (heap w ! a) name f]\<rparr>)"

text \<open>
  Package-level \<^verbatim>\<open>Wait\<close>: \<open>None\<close> when it returns at once without doing anything, else
  the configuration in which the manager's \<^verbatim>\<open>Wait\<close> starts.
\<close>

definition Wait_pkg :: "world \<Rightarrow> state option" where
  "Wait_pkg w =
     (case manager (defaultHook w) of
        None \<Rightarrow> None
      | Some a \<Rightarrow> Some (Wait (heap w ! a)))"

section \<open>Construction, registration and the singleton: sequential properties\<close>

text \<open>
  C8. A supplied duration that is zero or negative gives the manager the deadline of
  30 seconds; a positive one is kept as it is.
\<close>

theorem NewManager_timeout:
  "timeout (NewManager t l) = (if sint t \<le> 0 then 30 * Second else t)
   \<and> 30 * Second = (30000000000 :: Duration)"
  by (simp add: NewManager_def word_sle_eq Second_def)

text \<open>Two calls of \<^verbatim>\<open>SetupGracefulShutdown\<close> in a fresh process: both results and the final world.\<close>

definition setup_twice ::
    "Duration \<Rightarrow> Logger \<Rightarrow> Duration \<Rightarrow> Logger \<Rightarrow> nat option \<times> nat option \<times> world" where
  "setup_twice t1 l1 t2 l2 =
     (let (p1, w1) = SetupGracefulShutdown t1 l1 init_world;
          (p2, w2) = SetupGracefulShutdown t2 l2 w1
      in (p1, p2, w2))"

lemma setup_twice_eq:
  "setup_twice t1 l1 t2 l2 =
     (Some 0, Some 0, \<lparr>heap = [NewManager t1 l1], defaultHook = \<lparr>manager = Some 0, once = True\<rparr>\<rparr>)"
  by (simp add: setup_twice_def SetupGracefulShutdown_def init_world_def Let_def)

text \<open>
  C6, as stated, fails when the first call supplies a duration that is not positive:
  after \<^verbatim>\<open>SetupGracefulShutdown(0, l)\<close> and \<^verbatim>\<open>SetupGracefulShutdown(5s, l')\<close> the
  shared manager's deadline is not the \<open>0\<close> supplied on the first call.
\<close>

theorem setup_twice_deadline_counterexample:
  "timeout (heap (snd (snd (setup_twice 0 (Logger 0) (5 * Second) (Logger 1)))) ! 0) \<noteq> 0"
  by (simp add: setup_twice_eq NewManager_def Second_def)

text \<open>
  C6, amended. Two calls of the setup function, with any deadlines and loggers, return
  the same pointer both times; the heap holds that one manager only; the manager is the
  one \<^verbatim>\<open>NewManager\<close> builds from the arguments of the first call, so its deadline is
  the first call's duration if that is positive and 30 seconds otherwise, and its logger
  is the first call's.
\<close>

theorem setup_twice_first_call_wins:
  "fst (setup_twice t1 l1 t2 l2) = Some 0
   \<and> fst (snd (setup_twice t1 l1 t2 l2)) = fst (setup_twice t1 l1 t2 l2)
   \<and> heap (snd (snd (setup_twice t1 l1 t2 l2))) = [NewManager t1 l1]
   \<and> timeout (heap (snd (snd (setup_twice t1 l1 t2 l2))) ! 0)
       = (if sint t1 \<le> 0 then 30 * Second else t1)
   \<and> logger (heap (snd (snd (setup_twice t1 l1 t2 l2))) ! 0) = l1"
  by (simp add: setup_twice_eq NewManager_def word_sle_eq)

text \<open>
  C7. While the shared manager pointer is nil, the package-level \<^verbatim>\<open>Register\<close> and
  \<^verbatim>\<open>RegisterWithName\<close> leave the world as it is and the package-level \<^verbatim>\<open>Wait\<close>
  returns at once: it starts no signal wait and no shutdown session.
\<close>

theorem package_functions_before_setup:
  "manager (defaultHook w) = None \<Longrightarrow>
     Register_pkg f w = w \<and> RegisterWithName_pkg name f w = w \<and> Wait_pkg w = None"
  by (simp add: Register_pkg_def RegisterWithName_pkg_def Wait_pkg_def)

theorem package_functions_before_setup_witness:
  "manager (defaultHook init_world) = None
   \<and> Register_pkg (\<lambda>c. Return None) init_world = init_world
   \<and> RegisterWithName_pkg ''db'' (\<lambda>c. Return None) init_world = init_world
   \<and> Wait_pkg init_world = None"
  using package_functions_before_setup[of init_world "\<lambda>c. Return None" "''db''"]
  by (simp add: init_world_def)

lemmas step_defs = step_def main_step_def timeout_step_def waiter_step_def task_step_def
  proc_step_def emit_def set_status_def

text \<open>
  C9. \<^verbatim>\<open>RegisterWithName\<close> appends exactly one callback and changes nothing else of the
  manager. When a goroutine of a session invokes that callback with the context \<open>c\<close>,
  its first two steps are: the call itself, and the log call with the informational
  event \<^verbatim>\<open>"shutting down component"\<close> carrying the field \<^verbatim>\<open>component = name\<close>. After
  them the goroutine is running \<open>f c\<close>, the call of the wrapped function with the same
  context, so what the wrapper returns is what \<open>f\<close> returns.
\<close>

theorem RegisterWithName_logs_then_delegates:
  assumes "ctx s = Some c" "\<not> panicked s" "i < length (tasks s)"
    "tasks s ! i = \<lparr>fn = last (callbacks (RegisterWithName m name f)), status = Created\<rparr>"
  shows "callbacks (RegisterWithName m name f)
           = callbacks m @ [last (callbacks (RegisterWithName m name f))]
    \<and> timeout (RegisterWithName m name f) = timeout m
    \<and> logger (RegisterWithName m name f) = logger m
    \<and> run [Task i, Task i] s =
        Some (set_status i (Running (f c))
               (emit (TaskG i) (Event Info ''shutting down component'' [String ''component'' name]) s))"
  using assms
  by (simp add: RegisterWithName_def Register_def step_defs)

text \<open>A registry with one named component whose teardown fails.\<close>

definition scenario_named :: Manager where
  "scenario_named =
     RegisterWithName (NewManager Second (Logger 0)) ''db'' (\<lambda>c. Return (Some ''disconnect failed''))"

theorem RegisterWithName_logs_then_delegates_witness:
  "map_option (\<lambda>s. (logs s, map status (tasks s)))
     (run [Task 0, Task 0] (the (run [Main, Main, Main, Main] (Shutdown scenario_named))))
   = Some ([(TaskG 0, Event Info ''shutting down component'' [String ''component'' ''db''])],
           [Running (Return (Some ''disconnect failed''))])"
proof -
  define s where "s = the (run [Main, Main, Main, Main] (Shutdown scenario_named))"
  have s: "s = (Shutdown scenario_named)
      \<lparr>pc := Loop (- 1), ctx := Some (WithTimeout Second), snap := callbacks scenario_named,
        wg := 1, errCap := 1,
        tasks := [\<lparr>fn = last (callbacks scenario_named), status = Created\<rparr>]\<rparr>"
    by (simp add: s_def scenario_named_def RegisterWithName_def Register_def NewManager_def
        Shutdown_def step_defs Second_def word_sle_eq)
  have r: "run [Task 0, Task 0] s =
      Some (set_status 0 (Running (Return (Some ''disconnect failed'')))
             (emit (TaskG 0) (Event Info ''shutting down component'' [String ''component'' ''db'']) s))"
    by (rule RegisterWithName_logs_then_delegates[
          of s "WithTimeout Second" 0 "NewManager Second (Logger 0)" "''db''"
             "\<lambda>c. Return (Some ''disconnect failed'')", THEN conjunct2, THEN conjunct2, THEN conjunct2])
       (simp_all add: s scenario_named_def Shutdown_def)
  have "(\<lambda>s. (logs s, map status (tasks s)))
          (set_status 0 (Running (Return (Some ''disconnect failed'')))
             (emit (TaskG 0) (Event Info ''shutting down component'' [String ''component'' ''db'']) s))
        = ([(TaskG 0, Event Info ''shutting down component'' [String ''component'' ''db''])],
           [Running (Return (Some ''disconnect failed''))])"
    by (simp add: s Shutdown_def set_status_def emit_def)
  with r have "map_option (\<lambda>s. (logs s, map status (tasks s))) (run [Task 0, Task 0] s)
      = Some ([(TaskG 0, Event Info ''shutting down component'' [String ''component'' ''db''])],
              [Running (Return (Some ''disconnect failed''))])"
    by (simp del: run.simps)
  then show ?thesis unfolding s_def .
qed

section \<open>Runs without registration\<close>

text \<open>Only a concurrent \<^verbatim>\<open>Register\<close> writes the manager.\<close>

lemma step_mgr:
  "step a s = Some s' \<Longrightarrow> mgr s' = (case a of Reg f \<Rightarrow> Register (mgr s) f | _ \<Rightarrow> mgr s)"
  by (auto simp: step_def main_step_def timeout_step_def waiter_step_def task_step_def
      proc_step_def emit_def set_status_def
      split: action.splits pc.splits if_splits list.splits wstatus.splits status.splits
        proc.splits option.splits)

text \<open>A schedule in which nobody registers.\<close>

fun unregistered :: "action list \<Rightarrow> bool" where
  "unregistered [] = True"
| "unregistered (Reg f # as) = False"
| "unregistered (a # as) = unregistered as"

lemma run_mgr:
  "run sched s = Some s' \<Longrightarrow> unregistered sched \<Longrightarrow> mgr s' = mgr s"
proof (induction sched arbitrary: s)
  case Nil
  then show ?case by simp
next
  case (Cons a as)
  from Cons.prems(1) obtain s1 where s1: "step a s = Some s1" and r: "run as s1 = Some s'"
    by (auto split: option.splits)
  from Cons.prems(2) have na: "\<forall>f. a \<noteq> Reg f" and u: "unregistered as"
    by (cases a; simp)+
  from step_mgr[OF s1] na have "mgr s1 = mgr s" by (cases a) auto
  with Cons.IH[OF r u] show ?case by simp
qed

section \<open>What an operation does before the deadline\<close>

text \<open>
  \<open>live p\<close>: what the call \<open>p\<close> does as long as its context is not done, when every
  test of the context takes its second branch: \<open>Some r\<close> when the call returns \<open>r\<close> by
  its own steps, \<open>None\<close> when it blocks (forever, or until the context is done).
\<close>

fun live :: "proc \<Rightarrow> error option option" where
  "live (Return r) = Some r"
| "live (Log e p) = live p"
| "live (IfDone p q) = live q"
| "live (AwaitDone p) = None"
| "live Forever = None"

section \<open>Invariants of a session\<close>

text \<open>
  \<open>pending st\<close> is 1 for a goroutine that has not finished, \<open>sent st\<close> is the error the
  goroutine has put on \<^verbatim>\<open>errChan\<close> (if any); \<open>reported s\<close> are the errors of the error
  events the main goroutine has logged.
\<close>

fun pending :: "status \<Rightarrow> nat" where
  "pending (Finished r) = 0"
| "pending _ = 1"

fun sent :: "status \<Rightarrow> error multiset" where
  "sent (Exiting (Some e)) = {#e#}"
| "sent (Finished (Some e)) = {#e#}"
| "sent _ = {#}"

fun err_of :: "event \<Rightarrow> error list" where
  "err_of (Event Error msg [Err e]) = [e]"
| "err_of _ = []"

definition reported :: "state \<Rightarrow> error list" where
  "reported s = concat (map err_of (main_logs s))"

text \<open>The three events \<^verbatim>\<open>Shutdown\<close> logs (source lines 96, 98 and 103).\<close>

definition completed :: event where
  "completed = Event Info ''graceful shutdown completed'' []"

definition timed_out :: event where
  "timed_out = Event Warn ''graceful shutdown timeout, forcing exit'' []"

definition failed :: "error \<Rightarrow> event" where
  "failed e = Event Error ''shutdown error'' [Err e]"

text \<open>
  The shape of a state at each program point of the main goroutine: before the loop
  nothing is launched; at the head of the loop with counter \<open>i\<close> the goroutines launched
  so far are those of \<^verbatim>\<open>callbacks[i+1 ..]\<close>, in reverse; after it, those of the whole
  snapshot, and \<^verbatim>\<open>errChan\<close> has room for one error each; \<^verbatim>\<open>errChan\<close> is closed from
  the draining loop on.
\<close>

definition pre :: "state \<Rightarrow> bool" where
  "pre s = (tasks s = [] \<and> waiter s = NoWaiter \<and> \<not> errClosed s \<and> errChan s = []
            \<and> \<not> done_closed s \<and> wg s = 0)"

definition launched :: "state \<Rightarrow> bool" where
  "launched s = (map fn (tasks s) = rev (snap s) \<and> errCap s = length (snap s))"

definition inv_shape :: "state \<Rightarrow> bool" where
  "inv_shape s =
     (case pc s of
        AwaitSignal \<Rightarrow> False
      | Start \<Rightarrow> pre s \<and> ctx s = None \<and> logs s = []
      | Snapshot \<Rightarrow> pre s
      | MakeChan \<Rightarrow> pre s
      | Loop i \<Rightarrow> - 1 \<le> i \<and> i < int (length (snap s))
          \<and> map fn (tasks s) = rev (drop (nat (i + 1)) (snap s))
          \<and> errCap s = length (snap s) \<and> waiter s = NoWaiter \<and> \<not> errClosed s \<and> \<not> done_closed s
      | SpawnWaiter \<Rightarrow> launched s \<and> waiter s = NoWaiter \<and> \<not> errClosed s
      | Select \<Rightarrow> launched s \<and> waiter s \<noteq> NoWaiter \<and> \<not> errClosed s
      | CloseErr \<Rightarrow> launched s \<and> waiter s \<noteq> NoWaiter \<and> \<not> errClosed s
      | Drain \<Rightarrow> launched s \<and> waiter s \<noteq> NoWaiter \<and> errClosed s
      | Cancel \<Rightarrow> launched s \<and> waiter s \<noteq> NoWaiter \<and> errClosed s \<and> errChan s = []
      | Returned \<Rightarrow> launched s \<and> waiter s \<noteq> NoWaiter \<and> errClosed s \<and> errChan s = [])"

lemma map_fn_update [simp]:
  "map fn (ts[i := (ts ! i)\<lparr>status := st\<rparr>]) = map fn ts"
  by (induction ts arbitrary: i) (auto split: nat.splits)

lemma launch_order:
  "0 \<le> i \<Longrightarrow> nat i < length xs \<Longrightarrow>
     rev (drop (nat (i + 1)) xs) @ [xs ! nat i] = rev (drop (nat i) xs)"
proof -
  assume a: "0 \<le> i" "nat i < length xs"
  then have "nat (i + 1) = Suc (nat i)" by simp
  moreover from a have "xs ! nat i # drop (Suc (nat i)) xs = drop (nat i) xs"
    by (simp add: Cons_nth_drop_Suc)
  ultimately show ?thesis by (metis rev.simps(2))
qed

lemma shape_main: "inv_shape s \<Longrightarrow> main_step s = Some s' \<Longrightarrow> inv_shape s'"
  by (cases "pc s")
     (auto simp: inv_shape_def main_step_def emit_def pre_def launched_def launch_order
        split: if_splits list.splits)

lemma shape_task: "inv_shape s \<Longrightarrow> task_step i s = Some s' \<Longrightarrow> inv_shape s'"
  by (cases "pc s")
     (auto simp: inv_shape_def task_step_def proc_step_def set_status_def emit_def pre_def launched_def
        split: if_splits status.splits proc.splits option.splits)

lemma sum_list_status_update:
  fixes g :: "status \<Rightarrow> 'b::comm_monoid_add"
  shows "i < length ts \<Longrightarrow>
    (\<Sum>t\<leftarrow>ts[i := (ts ! i)\<lparr>status := st\<rparr>]. g (status t)) + g (status (ts ! i))
      = (\<Sum>t\<leftarrow>ts. g (status t)) + g st"
  by (induction ts arbitrary: i) (auto split: nat.splits simp: ac_simps)

text \<open>
  The counters: the \<^verbatim>\<open>WaitGroup\<close> counts the goroutines that have not finished; the
  waiter passes \<^verbatim>\<open>wg.Wait()\<close>, and \<^verbatim>\<open>done\<close> is closed, only when all have; every
  error sent is either still in the channel or logged; the main goroutine's log is empty
  up to the \<^verbatim>\<open>select\<close>, then starts with the completion event (and then all goroutines
  have finished) or with the timeout warning, followed by the error events.
\<close>

definition unfinished :: "state \<Rightarrow> nat" where
  "unfinished s = (\<Sum>t\<leftarrow>tasks s. pending (status t))"

definition sent_all :: "state \<Rightarrow> error multiset" where
  "sent_all s = (\<Sum>t\<leftarrow>tasks s. sent (status t))"

definition inv_wg :: "state \<Rightarrow> bool" where
  "inv_wg s = (wg s = int (unfinished s))"

definition inv_waiter :: "state \<Rightarrow> bool" where
  "inv_waiter s = (done_closed s = (waiter s = WaiterDone)
     \<and> (waiter s = Closing \<or> waiter s = WaiterDone \<longrightarrow> unfinished s = 0))"

definition inv_log :: "state \<Rightarrow> bool" where
  "inv_log s =
     (if pc s = CloseErr \<or> pc s = Drain \<or> pc s = Cancel \<or> pc s = Returned then
        (main_logs s = completed # map failed (reported s) \<and> unfinished s = 0)
        \<or> main_logs s = timed_out # map failed (reported s)
      else main_logs s = [] \<and> reported s = [])"

definition inv_chan :: "state \<Rightarrow> bool" where
  "inv_chan s = (mset (reported s) + mset (errChan s) = sent_all s)"

lemma unfinished_set_status:
  "i < length (tasks s) \<Longrightarrow>
     unfinished (set_status i st s) + pending (status (tasks s ! i)) = unfinished s + pending st"
  using sum_list_status_update[of i "tasks s" pending st]
  by (simp add: unfinished_def set_status_def)

lemma sent_set_status:
  "i < length (tasks s) \<Longrightarrow>
     sent_all (set_status i st s) + sent (status (tasks s ! i)) = sent_all s + sent st"
  using sum_list_status_update[of i "tasks s" sent st]
  by (simp add: sent_all_def set_status_def)

text \<open>What a step of a callback's goroutine does, when it does not panic.\<close>

lemma task_step_cases:
  assumes "task_step i s = Some s'"
  obtains
    (panic) "s' = s\<lparr>panicked := True\<rparr>"
      "(\<exists>e. status (tasks s ! i) = Running (Return (Some e)) \<and> errClosed s)
        \<or> ((\<exists>r. status (tasks s ! i) = Exiting r) \<and> wg s \<le> 0)"
  | (local) st where "i < length (tasks s)" "s' = set_status i st s"
      "pending (status (tasks s ! i)) = 1" "pending st = 1"
      "sent (status (tasks s ! i)) = {#}" "sent st = {#}"
  | (log) e q where "i < length (tasks s)" "status (tasks s ! i) = Running (Log e q)"
      "s' = set_status i (Running q) (emit (TaskG i) e s)"
  | (send) e where "i < length (tasks s)" "status (tasks s ! i) = Running (Return (Some e))"
      "\<not> errClosed s" "length (errChan s) < errCap s"
      "s' = set_status i (Exiting (Some e)) (s\<lparr>errChan := errChan s @ [e]\<rparr>)"
  | (exit) r where "i < length (tasks s)" "status (tasks s ! i) = Exiting r" "0 < wg s"
      "s' = set_status i (Finished r) (s\<lparr>wg := wg s - 1\<rparr>)"
  using assms
  by (auto simp: task_step_def proc_step_def split: if_splits status.splits proc.splits option.splits)

lemma set_status_fields [simp]:
  "mgr (set_status i st s) = mgr s" "pc (set_status i st s) = pc s"
  "ctx (set_status i st s) = ctx s" "ctx_done (set_status i st s) = ctx_done s"
  "snap (set_status i st s) = snap s" "wg (set_status i st s) = wg s"
  "errChan (set_status i st s) = errChan s" "errCap (set_status i st s) = errCap s"
  "errClosed (set_status i st s) = errClosed s" "done_closed (set_status i st s) = done_closed s"
  "waiter (set_status i st s) = waiter s" "logs (set_status i st s) = logs s"
  "panicked (set_status i st s) = panicked s"
  "tasks (set_status i st s) = (tasks s)[i := (tasks s ! i)\<lparr>status := st\<rparr>]"
  by (simp_all add: set_status_def)

lemma emit_fields [simp]:
  "mgr (emit g e s) = mgr s" "pc (emit g e s) = pc s"
  "ctx (emit g e s) = ctx s" "ctx_done (emit g e s) = ctx_done s"
  "snap (emit g e s) = snap s" "wg (emit g e s) = wg s"
  "errChan (emit g e s) = errChan s" "errCap (emit g e s) = errCap s"
  "errClosed (emit g e s) = errClosed s" "done_closed (emit g e s) = done_closed s"
  "waiter (emit g e s) = waiter s" "tasks (emit g e s) = tasks s"
  "panicked (emit g e s) = panicked s"
  "logs (emit g e s) = logs s @ [(g, e)]"
  by (simp_all add: emit_def)

lemma unfinished_simps [simp]:
  "unfinished (emit g e s) = unfinished s"
  "unfinished (mgr_update f0 s) = unfinished s"
  "unfinished (pc_update f1 s) = unfinished s"
  "unfinished (ctx_update f2 s) = unfinished s"
  "unfinished (ctx_done_update f3 s) = unfinished s"
  "unfinished (snap_update f4 s) = unfinished s"
  "unfinished (wg_update f5 s) = unfinished s"
  "unfinished (errChan_update f6 s) = unfinished s"
  "unfinished (errCap_update f7 s) = unfinished s"
  "unfinished (errClosed_update f8 s) = unfinished s"
  "unfinished (done_closed_update f9 s) = unfinished s"
  "unfinished (waiter_update f11 s) = unfinished s"
  "unfinished (logs_update f12 s) = unfinished s"
  "unfinished (panicked_update f13 s) = unfinished s"
  by (simp_all add: unfinished_def emit_def)

lemma sent_all_simps [simp]:
  "sent_all (emit g e s) = sent_all s"
  "sent_all (mgr_update f0 s) = sent_all s"
  "sent_all (pc_update f1 s) = sent_all s"
  "sent_all (ctx_update f2 s) = sent_all s"
  "sent_all (ctx_done_update f3 s) = sent_all s"
  "sent_all (snap_update f4 s) = sent_all s"
  "sent_all (wg_update f5 s) = sent_all s"
  "sent_all (errChan_update f6 s) = sent_all s"
  "sent_all (errCap_update f7 s) = sent_all s"
  "sent_all (errClosed_update f8 s) = sent_all s"
  "sent_all (done_closed_update f9 s) = sent_all s"
  "sent_all (waiter_update f11 s) = sent_all s"
  "sent_all (logs_update f12 s) = sent_all s"
  "sent_all (panicked_update f13 s) = sent_all s"
  by (simp_all add: sent_all_def emit_def)

lemma main_logs_simps [simp]:
  "main_logs (set_status i st s) = main_logs s"
  "main_logs (emit (TaskG i) e s) = main_logs s"
  "main_logs (emit MainG e s) = main_logs s @ [e]"
  "main_logs (mgr_update f0 s) = main_logs s"
  "main_logs (pc_update f1 s) = main_logs s"
  "main_logs (ctx_update f2 s) = main_logs s"
  "main_logs (ctx_done_update f3 s) = main_logs s"
  "main_logs (snap_update f4 s) = main_logs s"
  "main_logs (wg_update f5 s) = main_logs s"
  "main_logs (errChan_update f6 s) = main_logs s"
  "main_logs (errCap_update f7 s) = main_logs s"
  "main_logs (errClosed_update f8 s) = main_logs s"
  "main_logs (done_closed_update f9 s) = main_logs s"
  "main_logs (tasks_update f10 s) = main_logs s"
  "main_logs (waiter_update f11 s) = main_logs s"
  "main_logs (panicked_update f13 s) = main_logs s"
  by (simp_all add: main_logs_def emit_def set_status_def)

lemma reported_simps [simp]:
  "reported (set_status i st s) = reported s"
  "reported (emit (TaskG i) e s) = reported s"
  "reported (emit MainG e s) = reported s @ err_of e"
  "reported (mgr_update f0 s) = reported s"
  "reported (pc_update f1 s) = reported s"
  "reported (ctx_update f2 s) = reported s"
  "reported (ctx_done_update f3 s) = reported s"
  "reported (snap_update f4 s) = reported s"
  "reported (wg_update f5 s) = reported s"
  "reported (errChan_update f6 s) = reported s"
  "reported (errCap_update f7 s) = reported s"
  "reported (errClosed_update f8 s) = reported s"
  "reported (done_closed_update f9 s) = reported s"
  "reported (tasks_update f10 s) = reported s"
  "reported (waiter_update f11 s) = reported s"
  "reported (panicked_update f13 s) = reported s"
  by (simp_all add: reported_def)

lemma pending_le_unfinished:
  "i < length (tasks s) \<Longrightarrow> pending (status (tasks s ! i)) \<le> unfinished s"
  using elem_le_sum_list[of i "map (\<lambda>t. pending (status t)) (tasks s)"]
  by (simp add: unfinished_def)

lemma task_step_progress:
  "task_step i s = Some s' \<Longrightarrow> i < length (tasks s) \<and> pending (status (tasks s ! i)) = 1"
  by (auto simp: task_step_def split: if_splits status.splits)

lemma unfinished_task:
  "task_step i s = Some s' \<Longrightarrow> unfinished s' \<le> unfinished s \<and> 0 < unfinished s"
proof -
  assume a: "task_step i s = Some s'"
  from task_step_progress[OF a] pending_le_unfinished[of i s] have pos: "0 < unfinished s" by simp
  from a have "unfinished s' \<le> unfinished s"
  proof (rule task_step_cases, goal_cases)
    case 1 then show ?case by simp
  next
    case (2 st) then show ?case
      using unfinished_set_status[of i s st] by simp
  next
    case (3 e q) then show ?case
      using unfinished_set_status[of i "emit (TaskG i) e s" "Running q"] by simp
  next
    case (4 e) then show ?case
      using unfinished_set_status[of i "s\<lparr>errChan := errChan s @ [e]\<rparr>" "Exiting (Some e)"] by simp
  next
    case (5 r) then show ?case
      using unfinished_set_status[of i "s\<lparr>wg := wg s - 1\<rparr>" "Finished r"] by simp
  qed
  with pos show ?thesis by simp
qed

lemma wg_task: "inv_wg s \<Longrightarrow> task_step i s = Some s' \<Longrightarrow> inv_wg s'"
proof (erule task_step_cases, goal_cases)
  case 1 then show ?case by (simp add: inv_wg_def)
next
  case (2 st) then show ?case
    using unfinished_set_status[of i s st] by (simp add: inv_wg_def)
next
  case (3 e q) then show ?case
    using unfinished_set_status[of i "emit (TaskG i) e s" "Running q"]
    by (simp add: inv_wg_def)
next
  case (4 e) then show ?case
    using unfinished_set_status[of i "s\<lparr>errChan := errChan s @ [e]\<rparr>" "Exiting (Some e)"]
    by (simp add: inv_wg_def)
next
  case (5 r) then show ?case
    using unfinished_set_status[of i "s\<lparr>wg := wg s - 1\<rparr>" "Finished r"]
    by (simp add: inv_wg_def)
qed

lemma wg_main: "inv_wg s \<Longrightarrow> inv_shape s \<Longrightarrow> main_step s = Some s' \<Longrightarrow> inv_wg s'"
  by (cases "pc s")
     (auto simp: inv_wg_def inv_shape_def main_step_def pre_def unfinished_def
        split: if_splits list.splits)

lemma task_step_frame:
  assumes "task_step i s = Some s'"
  shows "pc s' = pc s" "waiter s' = waiter s" "done_closed s' = done_closed s"
    "main_logs s' = main_logs s" "reported s' = reported s" "mgr s' = mgr s" "ctx s' = ctx s"
    "snap s' = snap s" "errCap s' = errCap s" "errClosed s' = errClosed s"
    "ctx_done s' = ctx_done s" "map fn (tasks s') = map fn (tasks s)"
  by (rule task_step_cases[OF assms]; simp)+

lemma waiter_task:
  assumes "inv_waiter s" "task_step i s = Some s'"
  shows "inv_waiter s'"
  using assms(1) unfinished_task[OF assms(2)] task_step_frame[OF assms(2)]
  by (simp add: inv_waiter_def)

lemma waiter_main: "inv_waiter s \<Longrightarrow> inv_shape s \<Longrightarrow> main_step s = Some s' \<Longrightarrow> inv_waiter s'"
  by (cases "pc s")
     (auto simp: inv_waiter_def inv_shape_def main_step_def pre_def unfinished_def
        split: if_splits list.splits)

lemma waiter_waiter: "inv_waiter s \<Longrightarrow> inv_wg s \<Longrightarrow> waiter_step s = Some s' \<Longrightarrow> inv_waiter s'"
  by (auto simp: inv_waiter_def waiter_step_def inv_wg_def unfinished_def split: wstatus.splits if_splits)

lemma wg_waiter: "inv_wg s \<Longrightarrow> waiter_step s = Some s' \<Longrightarrow> inv_wg s'"
  by (auto simp: waiter_step_def inv_wg_def unfinished_def split: wstatus.splits if_splits)

lemma chan_task: "inv_chan s \<Longrightarrow> task_step i s = Some s' \<Longrightarrow> inv_chan s'"
proof (erule task_step_cases, goal_cases)
  case 1 then show ?case by (simp add: inv_chan_def)
next
  case (2 st) then show ?case
    using sent_set_status[of i s st] by (simp add: inv_chan_def)
next
  case (3 e q) then show ?case
    using sent_set_status[of i "emit (TaskG i) e s" "Running q"]
    by (simp add: inv_chan_def)
next
  case (4 e) then show ?case
    using sent_set_status[of i "s\<lparr>errChan := errChan s @ [e]\<rparr>" "Exiting (Some e)"]
    by (simp add: inv_chan_def)
next
  case (5 r) then show ?case
    using sent_set_status[of i "s\<lparr>wg := wg s - 1\<rparr>" "Finished r"]
    by (cases r) (simp_all add: inv_chan_def)
qed

lemma chan_main: "inv_chan s \<Longrightarrow> inv_shape s \<Longrightarrow> inv_log s \<Longrightarrow> main_step s = Some s' \<Longrightarrow> inv_chan s'"
  by (cases "pc s")
     (auto simp: inv_chan_def inv_shape_def inv_log_def main_step_def pre_def sent_all_def
        split: if_splits list.splits)

lemma log_task:
  assumes "inv_log s" "task_step i s = Some s'"
  shows "inv_log s'"
  using assms(1) unfinished_task[OF assms(2)] task_step_frame[OF assms(2)]
  by (auto simp: inv_log_def)

lemma main_step_at:
  "pc s = AwaitSignal \<Longrightarrow> main_step s = None"
  "pc s = Start \<Longrightarrow> main_step s = Some (s\<lparr>ctx := Some (WithTimeout (timeout (mgr s))), pc := Snapshot\<rparr>)"
  "pc s = Snapshot \<Longrightarrow> main_step s = Some (s\<lparr>snap := callbacks (mgr s), pc := MakeChan\<rparr>)"
  "pc s = MakeChan \<Longrightarrow> main_step s =
     Some (s\<lparr>wg := 0, errChan := [], errCap := length (snap s), errClosed := False,
             pc := Loop (int (length (snap s)) - 1)\<rparr>)"
  "pc s = Loop i \<Longrightarrow> main_step s =
     (if 0 \<le> i then
        (if nat i < length (snap s) then
           Some (s\<lparr>wg := wg s + 1,
                   tasks := tasks s @ [\<lparr>fn = snap s ! nat i, status = Created\<rparr>],
                   pc := Loop (i - 1)\<rparr>)
         else Some (s\<lparr>panicked := True\<rparr>))
      else Some (s\<lparr>pc := SpawnWaiter\<rparr>))"
  "pc s = SpawnWaiter \<Longrightarrow> main_step s = Some (s\<lparr>done_closed := False, waiter := Waiting, pc := Select\<rparr>)"
  "pc s = Select \<Longrightarrow> main_step s =
     (if done_closed s then
        Some (emit MainG (Event Info ''graceful shutdown completed'' []) (s\<lparr>pc := CloseErr\<rparr>))
      else None)"
  "pc s = CloseErr \<Longrightarrow> main_step s = Some (s\<lparr>errClosed := True, pc := Drain\<rparr>)"
  "pc s = Drain \<Longrightarrow> main_step s =
     (case errChan s of
        e # es \<Rightarrow> Some (emit MainG (Event Error ''shutdown error'' [Err e]) (s\<lparr>errChan := es\<rparr>))
      | [] \<Rightarrow> if errClosed s then Some (s\<lparr>pc := Cancel\<rparr>) else None)"
  "pc s = Cancel \<Longrightarrow> main_step s = Some (s\<lparr>ctx_done := True, pc := Returned\<rparr>)"
  "pc s = Returned \<Longrightarrow> main_step s = None"
  by (simp_all add: main_step_def)

lemma log_main:
  assumes "inv_log s" "inv_waiter s" "main_step s = Some s'"
  shows "inv_log s'"
proof (cases "pc s")
  case Select
  with assms(3) have s': "s' = emit MainG completed (s\<lparr>pc := CloseErr\<rparr>)" and d: "done_closed s"
    by (auto simp: main_step_at completed_def split: if_splits)
  from d assms(2) have "unfinished s = 0" by (simp add: inv_waiter_def)
  moreover from assms(1) Select have "main_logs s = []" "reported s = []" by (simp_all add: inv_log_def)
  ultimately show ?thesis using s' by (simp add: inv_log_def completed_def)
next
  case Drain
  show ?thesis
  proof (cases "errChan s")
    case Nil
    with assms Drain show ?thesis by (auto simp: main_step_at inv_log_def split: if_splits)
  next
    case (Cons e es)
    with assms(3) Drain have s': "s' = emit MainG (failed e) (s\<lparr>errChan := es\<rparr>)"
      by (auto simp: main_step_at failed_def)
    have "err_of (failed e) = [e]" by (simp add: failed_def)
    with assms(1) Drain s' show ?thesis by (auto simp: inv_log_def)
  qed
qed (use assms in \<open>auto simp: main_step_at inv_log_def split: if_splits\<close>)

lemma timeout_step_at:
  "timeout_step s = Some s' \<Longrightarrow> pc s = Select \<and> ctx_done s \<and> s' = emit MainG timed_out (s\<lparr>pc := CloseErr\<rparr>)"
  by (auto simp: timeout_step_def timed_out_def split: if_splits)

definition session_inv :: "state \<Rightarrow> bool" where
  "session_inv s = (inv_shape s \<and> inv_wg s \<and> inv_waiter s \<and> inv_chan s \<and> inv_log s)"

lemma inv_init: "session_inv (Shutdown m)"
  by (simp add: session_inv_def inv_shape_def inv_wg_def inv_waiter_def inv_chan_def inv_log_def
      Shutdown_def pre_def unfinished_def sent_all_def reported_def main_logs_def)

lemma inv_main: "session_inv s \<Longrightarrow> main_step s = Some s' \<Longrightarrow> session_inv s'"
  unfolding session_inv_def using shape_main wg_main waiter_main chan_main log_main by blast

lemma inv_task_step: "session_inv s \<Longrightarrow> task_step i s = Some s' \<Longrightarrow> session_inv s'"
  unfolding session_inv_def using shape_task wg_task waiter_task chan_task log_task by blast

lemma inv_waiter_step: "session_inv s \<Longrightarrow> waiter_step s = Some s' \<Longrightarrow> session_inv s'"
proof -
  assume i: "session_inv s" and w: "waiter_step s = Some s'"
  from w have f: "pc s' = pc s" "tasks s' = tasks s" "logs s' = logs s" "errChan s' = errChan s"
    "errClosed s' = errClosed s" "snap s' = snap s" "errCap s' = errCap s" "wg s' = wg s"
    "waiter s \<noteq> NoWaiter" "waiter s' \<noteq> NoWaiter"
    by (auto simp: waiter_step_def split: wstatus.splits if_splits)
  from f have g: "unfinished s' = unfinished s" "sent_all s' = sent_all s" "main_logs s' = main_logs s"
    "reported s' = reported s"
    by (simp_all add: unfinished_def sent_all_def main_logs_def reported_def)
  from i f have "inv_shape s'"
    by (cases "pc s") (auto simp: session_inv_def inv_shape_def pre_def launched_def)
  moreover from i w have "inv_wg s'" "inv_waiter s'"
    using wg_waiter waiter_waiter by (auto simp: session_inv_def)
  moreover from i f g have "inv_chan s'" "inv_log s'"
    by (auto simp: session_inv_def inv_chan_def inv_log_def)
  ultimately show ?thesis by (simp add: session_inv_def)
qed

lemma inv_timeout: "session_inv s \<Longrightarrow> timeout_step s = Some s' \<Longrightarrow> session_inv s'"
  by (drule timeout_step_at)
     (auto simp: session_inv_def inv_shape_def inv_wg_def inv_waiter_def inv_chan_def inv_log_def
        timed_out_def launched_def)

lemma inv_frame [simp]:
  "session_inv (ctx_done_update f s) = session_inv s"
  "session_inv (mgr_update g s) = session_inv s"
  by (cases "pc s"; simp add: session_inv_def inv_shape_def inv_wg_def inv_waiter_def inv_chan_def
      inv_log_def pre_def launched_def)+

lemma step_env:
  "step (Signal sig) s = Some s' \<Longrightarrow> pc s = AwaitSignal"
  "step Expire s = Some s' \<Longrightarrow> s' = s\<lparr>ctx_done := True\<rparr>"
  "step (Reg f) s = Some s' \<Longrightarrow> s' = s\<lparr>mgr := Register (mgr s) f\<rparr>"
  by (simp_all add: step_def split: if_splits)

lemma inv_step:
  assumes "session_inv s" "step a s = Some s'"
  shows "session_inv s'"
proof (cases a)
  case (Signal sig)
  with assms step_env(1)[of sig s s'] show ?thesis
    by (simp add: session_inv_def inv_shape_def)
next
  case Main
  with assms show ?thesis
    by (auto simp: step_def split: if_splits intro: inv_main)
next
  case Timeout
  with assms show ?thesis
    by (auto simp: step_def split: if_splits intro: inv_timeout)
next
  case Waiter
  with assms show ?thesis
    by (auto simp: step_def split: if_splits intro: inv_waiter_step)
next
  case (Task i)
  with assms show ?thesis
    by (auto simp: step_def split: if_splits intro: inv_task_step)
next
  case Expire
  with assms step_env(2)[of s s'] show ?thesis by simp
next
  case (Reg f)
  with assms step_env(3)[of f s s'] show ?thesis by simp
qed

lemma run_snoc:
  "run (as @ [a]) s = (case run as s of None \<Rightarrow> None | Some s' \<Rightarrow> step a s')"
  by (induction as arbitrary: s) (auto split: option.splits)

lemma run_append:
  "run (as @ bs) s = (case run as s of None \<Rightarrow> None | Some s' \<Rightarrow> run bs s')"
  by (induction as arbitrary: s) (auto split: option.splits)

lemma run_invariant:
  assumes "run sched s0 = Some s" and "P s0"
    and "\<And>a s s'. a \<in> set sched \<Longrightarrow> P s \<Longrightarrow> step a s = Some s' \<Longrightarrow> P s'"
  shows "P s"
  using assms
proof (induction sched arbitrary: s rule: rev_induct)
  case Nil
  then show ?case by simp
next
  case (snoc a as)
  from snoc.prems(1) obtain s1 where r: "run as s0 = Some s1" and st: "step a s1 = Some s"
    by (auto simp: run_snoc split: option.splits)
  have "P s1"
  proof (rule snoc.IH[OF r snoc.prems(2)])
    fix b t t' assume "b \<in> set as" "P t" "step b t = Some t'"
    then show "P t'" using snoc.prems(3)[of b t t'] by simp
  qed
  then show ?case using snoc.prems(3)[of a s1 s] st by simp
qed

lemma inv_run: "run sched (Shutdown m) = Some s \<Longrightarrow> session_inv s"
  by (rule run_invariant[where P = session_inv]) (auto intro: inv_init inv_step)



lemma task_step_others:
  assumes "task_step i s = Some s'"
  shows "length (tasks s') = length (tasks s)" "j \<noteq> i \<Longrightarrow> tasks s' ! j = tasks s ! j"
  by (rule task_step_cases[OF assms]; simp)+





section \<open>Sessions in which the deadline does not expire during the wait\<close>





definition task_live :: "Context \<Rightarrow> task \<Rightarrow> bool" where
  "task_live c t =
     (case status t of
        Created \<Rightarrow> True
      | Running p \<Rightarrow> live p = live (fn t c)
      | Exiting r \<Rightarrow> live (fn t c) = Some r
      | Finished r \<Rightarrow> live (fn t c) = Some r)"









lemma task_live_Created [simp]: "task_live c \<lparr>fn = f, status = Created\<rparr>"
  by (simp add: task_live_def)













subsection \<open>No deadlock\<close>








subsection \<open>Termination\<close>

text \<open>
  A measure that every goroutine step decreases: the steps the main goroutine still
  has to take, those of each launched and each unlaunched operation (\<open>psize\<close> counts
  the steps of a call, a send counting twice since the main goroutine has to receive
  it), those of the waiter, and the errors waiting in the channel. Its value at the
  start of a session is \<open>step_bound\<close>.
\<close>

fun psize :: "proc \<Rightarrow> nat" where
  "psize (Return r) = 2"
| "psize (Log e p) = Suc (psize p)"
| "psize (IfDone p q) = Suc (psize p + psize q)"
| "psize (AwaitDone p) = Suc (psize p)"
| "psize Forever = 0"



definition launch_cost :: "Context \<Rightarrow> ShutdownFunc list \<Rightarrow> nat" where
  "launch_cost c fs = (\<Sum>f\<leftarrow>fs. 3 + psize (f c))"


definition rank :: "Context \<Rightarrow> state \<Rightarrow> nat" where
  "rank c s =
     (case pc s of
        AwaitSignal \<Rightarrow> 0
      | Start \<Rightarrow> 12 + launch_cost c (callbacks (mgr s))
      | Snapshot \<Rightarrow> 11 + launch_cost c (callbacks (mgr s))
      | MakeChan \<Rightarrow> 10 + launch_cost c (snap s)
      | Loop i \<Rightarrow> 8 + launch_cost c (take (nat (i + 1)) (snap s))
      | SpawnWaiter \<Rightarrow> 7
      | Select \<Rightarrow> 4
      | CloseErr \<Rightarrow> 3
      | Drain \<Rightarrow> 2
      | Cancel \<Rightarrow> 1
      | Returned \<Rightarrow> 0)"

lemma rank_simps [simp]:
  "rank c (set_status i st s) = rank c s"
  "rank c (emit g e s) = rank c s"
  "rank c (ctx_update f2 s) = rank c s"
  "rank c (ctx_done_update f3 s) = rank c s"
  "rank c (wg_update f5 s) = rank c s"
  "rank c (errChan_update f6 s) = rank c s"
  "rank c (errCap_update f7 s) = rank c s"
  "rank c (errClosed_update f8 s) = rank c s"
  "rank c (done_closed_update f9 s) = rank c s"
  "rank c (tasks_update f10 s) = rank c s"
  "rank c (waiter_update f11 s) = rank c s"
  "rank c (logs_update f12 s) = rank c s"
  "rank c (panicked_update f13 s) = rank c s"
  by (cases "pc s"; simp add: rank_def set_status_def emit_def)+
















section \<open>What a session does to the registry and the log\<close>

text \<open>
  C10. A session never writes the registry: in every run of \<^verbatim>\<open>Shutdown\<close> without a
  concurrent \<^verbatim>\<open>Register\<close>, in every state (the one in which \<^verbatim>\<open>Shutdown\<close> has returned
  included) the manager is the one the session started with, so a second \<^verbatim>\<open>Shutdown\<close>
  starts from the same configuration and sees the same callbacks.
\<close>

theorem Shutdown_keeps_registry:
  "run sched (Shutdown m) = Some s \<Longrightarrow> unregistered sched \<Longrightarrow>
     mgr s = m \<and> callbacks (mgr s) = callbacks m \<and> Shutdown (mgr s) = Shutdown m"
  using run_mgr[of sched "Shutdown m" s] by (simp add: Shutdown_def)

text \<open>The three scenarios of the specification's section 8 start from these registries.\<close>

definition scenario_ABC :: Manager where
  "scenario_ABC =
     Register (Register (Register (NewManager Second (Logger 0))
       (\<lambda>c. Return None)) (\<lambda>c. Return None)) (\<lambda>c. Return None)"

definition schedule_ABC :: "action list" where
  "schedule_ABC =
     [Main, Main, Main, Main, Task 0, Main, Main, Task 1, Task 0, Main, Main, Task 2, Task 1,
      Task 0, Task 2, Task 2, Task 1, Waiter, Waiter, Main, Main, Main, Main]"

lemma run_ABC:
  "run schedule_ABC (Shutdown scenario_ABC) =
     Some \<lparr>mgr = scenario_ABC, pc = Returned, ctx = Some (WithTimeout Second), ctx_done = True,
       snap = callbacks scenario_ABC, wg = 0, errChan = [], errCap = 3, errClosed = True,
       done_closed = True,
       tasks = [\<lparr>fn = \<lambda>c. Return None, status = Finished None\<rparr>,
                \<lparr>fn = \<lambda>c. Return None, status = Finished None\<rparr>,
                \<lparr>fn = \<lambda>c. Return None, status = Finished None\<rparr>],
       waiter = WaiterDone, logs = [(MainG, completed)], panicked = False\<rparr>"
  by (simp add: schedule_ABC_def scenario_ABC_def NewManager_def Register_def Shutdown_def
      step_defs completed_def Second_def word_sle_eq)

theorem Shutdown_keeps_registry_witness:
  "pc (the (run schedule_ABC (Shutdown scenario_ABC))) = Returned
   \<and> mgr (the (run schedule_ABC (Shutdown scenario_ABC))) = scenario_ABC
   \<and> length (callbacks (mgr (the (run schedule_ABC (Shutdown scenario_ABC))))) = 3"
proof -
  have r: "run schedule_ABC (Shutdown scenario_ABC) = Some (the (run schedule_ABC (Shutdown scenario_ABC)))"
    by (simp add: run_ABC)
  have u: "unregistered schedule_ABC" by (simp add: schedule_ABC_def)
  from Shutdown_keeps_registry[OF r u] show ?thesis
    by (simp add: run_ABC) (simp add: scenario_ABC_def Register_def NewManager_def)
qed










section \<open>One failing operation\<close>


text \<open>
  The scenario of the specification in which operation D fails with
  \<^verbatim>\<open>"disconnect failed"\<close>, registered after a sibling that succeeds (so D is launched
  first), and one complete run of it.
\<close>

definition scenario_D :: Manager where
  "scenario_D =
     Register (Register (NewManager Second (Logger 0))
       (\<lambda>c. Return None)) (\<lambda>c. Return (Some ''disconnect failed''))"

definition schedule_D :: "action list" where
  "schedule_D =
     [Main, Main, Main, Main, Task 0, Task 0, Task 0, Main, Main, Main, Task 1, Task 1, Task 1,
      Waiter, Waiter, Main, Main, Main, Main, Main]"

lemma run_D:
  "run schedule_D (Shutdown scenario_D) =
     Some \<lparr>mgr = scenario_D, pc = Returned, ctx = Some (WithTimeout Second), ctx_done = True,
       snap = callbacks scenario_D, wg = 0, errChan = [], errCap = 2, errClosed = True,
       done_closed = True,
       tasks = [\<lparr>fn = \<lambda>c. Return (Some ''disconnect failed''),
                  status = Finished (Some ''disconnect failed'')\<rparr>,
                \<lparr>fn = \<lambda>c. Return None, status = Finished None\<rparr>],
       waiter = WaiterDone,
       logs = [(MainG, completed), (MainG, failed ''disconnect failed'')], panicked = False\<rparr>"
  by (simp add: schedule_D_def scenario_D_def NewManager_def Register_def Shutdown_def
      step_defs completed_def failed_def Second_def word_sle_eq)









section \<open>Operations abandoned at the deadline\<close>

text \<open>
  A registry with one well-behaved operation that waits for the cancellation of its
  context and then returns the context's error, as
  \<^verbatim>\<open>func(ctx) error { <-ctx.Done(); return ctx.Err() }\<close> does, under a deadline of 200
  milliseconds. In the schedule the deadline expires while the operation is running;
  \<^verbatim>\<open>Shutdown\<close> takes the \<^verbatim>\<open>ctx.Done()\<close> branch, closes \<^verbatim>\<open>errChan\<close>, drains it and
  returns; then the operation returns its error.
\<close>

definition scenario_E :: Manager where
  "scenario_E =
     Register (NewManager (200 * 1000000) (Logger 0))
       (\<lambda>c. AwaitDone (Return (Some ''context deadline exceeded'')))"

definition schedule_E :: "action list" where
  "schedule_E =
     [Main, Main, Main, Main, Main, Main, Task 0, Expire, Timeout, Main, Main, Main, Task 0, Task 0]"

text \<open>
  C1. The claim: when the wait ends by the deadline, \<^verbatim>\<open>Shutdown\<close> logs the timeout
  warning, counts no running operation as failed, and the later completion or failure
  of an abandoned operation has no further effect. On the code the last part fails: in
  the run below \<^verbatim>\<open>Shutdown\<close> has returned with the timeout warning as its only log
  entry, and the abandoned operation's goroutine, which then sends its error on the
  closed \<^verbatim>\<open>errChan\<close>, panics.
\<close>

theorem Shutdown_abandoned_failure_panics:
  "map_option (\<lambda>s. (pc s, main_logs s, map status (tasks s), errClosed s, panicked s))
     (run schedule_E (Shutdown scenario_E))
   = Some (Returned, [timed_out], [Running (Return (Some ''context deadline exceeded''))], True, True)"
  by (simp add: schedule_E_def scenario_E_def NewManager_def Register_def Shutdown_def
      step_defs timed_out_def main_logs_def Second_def word_sle_eq)

section \<open>The snapshot and the launch order\<close>

fun registration :: "action \<Rightarrow> bool" where
  "registration (Reg f) = True"
| "registration _ = False"

definition snapshot_taken :: "state \<Rightarrow> bool" where
  "snapshot_taken s = (pc s \<noteq> AwaitSignal \<and> pc s \<noteq> Start \<and> pc s \<noteq> Snapshot)"

lemma main_step_ignores_mgr:
  assumes "snapshot_taken s"
  shows "main_step (s\<lparr>mgr := m'\<rparr>) = map_option (\<lambda>s'. s'\<lparr>mgr := m'\<rparr>) (main_step s)"
  using assms
  by (cases "pc s"; cases "errChan s")
     (simp_all add: snapshot_taken_def main_step_at emit_def)

lemma task_step_ignores_mgr:
  "task_step i (s\<lparr>mgr := m'\<rparr>) = map_option (\<lambda>s'. s'\<lparr>mgr := m'\<rparr>) (task_step i s)"
  by (simp add: task_step_def proc_step_def set_status_def emit_def
      split: status.splits proc.splits option.splits)

lemma step_ignores_mgr:
  assumes "snapshot_taken s" "\<not> registration a"
  shows "step a (s\<lparr>mgr := m'\<rparr>) = map_option (\<lambda>s'. s'\<lparr>mgr := m'\<rparr>) (step a s)"
proof (cases a)
  case Main
  with assms main_step_ignores_mgr[where s = s and m' = m'] show ?thesis by (simp add: step_def)
next
  case (Task i)
  with task_step_ignores_mgr[where i = i and s = s and m' = m'] show ?thesis by (simp add: step_def)
next
  case (Reg f)
  with assms show ?thesis by simp
qed (use assms in \<open>auto simp: step_def timeout_step_def waiter_step_def emit_def snapshot_taken_def
       split: wstatus.splits\<close>)

lemma step_keeps_snapshot:
  assumes "snapshot_taken s" "step a s = Some s'"
  shows "snapshot_taken s' \<and> snap s' = snap s"
proof (cases a)
  case Main
  with assms show ?thesis
    by (cases "pc s"; cases "errChan s")
       (auto simp: step_def snapshot_taken_def main_step_at split: if_splits)
next
  case (Task i)
  with assms task_step_frame(1,8)[of i s s'] show ?thesis
    by (auto simp: step_def snapshot_taken_def split: if_splits)
qed (use assms in \<open>auto simp: step_def timeout_step_def waiter_step_def emit_def snapshot_taken_def
       split: wstatus.splits if_splits\<close>)

lemma run_ignores_registrations:
  assumes "run sched s0 = Some s" "snapshot_taken s0"
  shows "snap s = snap s0
    \<and> run (filter (\<lambda>a. \<not> registration a) sched) (s0\<lparr>mgr := m'\<rparr>) = Some (s\<lparr>mgr := m'\<rparr>)"
  using assms
proof (induction sched arbitrary: s0)
  case Nil
  then show ?case by simp
next
  case (Cons a as)
  from Cons.prems(1) obtain s1 where s1: "step a s0 = Some s1" and r: "run as s1 = Some s"
    by (auto split: option.splits)
  from step_keeps_snapshot[OF Cons.prems(2) s1] have k: "snapshot_taken s1" "snap s1 = snap s0"
    by simp_all
  note ih = Cons.IH[OF r k(1)]
  show ?case
  proof (cases "registration a")
    case True
    then obtain f where "a = Reg f" by (cases a) simp_all
    with s1 have "s1\<lparr>mgr := m'\<rparr> = s0\<lparr>mgr := m'\<rparr>" by (auto simp: step_def split: if_splits)
    with ih k True show ?thesis by simp
  next
    case False
    with step_ignores_mgr[OF Cons.prems(2) False, where m' = m'] s1 ih k show ?thesis by simp
  qed
qed

lemma launched_prefix:
  assumes "session_inv s"
  shows "map fn (tasks s) = take (length (tasks s)) (rev (snap s))"
proof -
  from assms have sh: "inv_shape s" by (simp add: session_inv_def)
  consider (none) "tasks s = []"
    | (some) i where "map fn (tasks s) = rev (drop (nat (i + 1)) (snap s))"
    | (full) "map fn (tasks s) = rev (snap s)"
    using sh by (cases "pc s") (auto simp: inv_shape_def pre_def launched_def)
  then show ?thesis
  proof cases
    case none
    then show ?thesis by simp
  next
    case (some i)
    then have "length (tasks s) = length (snap s) - nat (i + 1)"
      by (metis length_map length_rev length_drop)
    with some show ?thesis by (simp add: rev_drop)
  next
    case full
    then have "length (tasks s) = length (snap s)" by (metis length_map length_rev)
    with full show ?thesis by simp
  qed
qed

fun launching_done :: "pc \<Rightarrow> bool" where
  "launching_done SpawnWaiter = True"
| "launching_done Select = True"
| "launching_done CloseErr = True"
| "launching_done Drain = True"
| "launching_done Cancel = True"
| "launching_done Returned = True"
| "launching_done _ = False"

lemma step_appends_tasks:
  assumes "step a s = Some s'"
  shows "map fn (tasks s) = take (length (tasks s)) (map fn (tasks s'))"
proof (cases a)
  case Main
  with assms show ?thesis
    by (cases "pc s"; cases "errChan s")
       (auto simp: step_def main_step_at split: if_splits)
next
  case (Task i)
  with assms have t: "task_step i s = Some s'" by (simp add: step_def split: if_splits)
  from task_step_frame(12)[OF t] task_step_others(1)[OF t] show ?thesis by simp
qed (use assms in \<open>auto simp: step_def timeout_step_def waiter_step_def emit_def
       split: wstatus.splits if_splits\<close>)

text \<open>
  C4. In every state of every run of \<^verbatim>\<open>Shutdown\<close>, the goroutines launched so far, in
  the order of their launch, run the callbacks of a prefix of the reversed snapshot;
  once the launching loop is over they are the whole reversed snapshot: the callback
  registered last is launched first, the one registered first is launched last. A step
  never changes the position of a launched goroutine (the list only grows at its end).
  The order is one of launch only: in a run of the two-operation scenario above the
  operation launched last has finished while the one launched first has not started.
\<close>

theorem launch_order_reversed:
  assumes "run sched (Shutdown m) = Some s"
  shows "map fn (tasks s) = take (length (tasks s)) (rev (snap s))
    \<and> (launching_done (pc s) \<longrightarrow> map fn (tasks s) = rev (snap s))
    \<and> (\<forall>a s'. step a s = Some s' \<longrightarrow> map fn (tasks s) = take (length (tasks s)) (map fn (tasks s')))
    \<and> (\<exists>sched' s'. run sched' (Shutdown scenario_D) = Some s'
          \<and> map status (tasks s') = [Created, Finished None])"
proof -
  from inv_run[OF assms] have i: "session_inv s" .
  have "map fn (tasks s) = rev (snap s)" if "launching_done (pc s)"
    using that i by (cases "pc s") (simp_all add: session_inv_def inv_shape_def launched_def)
  moreover have "run [Main, Main, Main, Main, Main, Task 1, Task 1, Task 1] (Shutdown scenario_D)
      = Some ((Shutdown scenario_D)\<lparr>pc := Loop (- 1), ctx := Some (WithTimeout Second),
          snap := callbacks scenario_D, wg := 1, errCap := 2,
          tasks := [\<lparr>fn = \<lambda>c. Return (Some ''disconnect failed''), status = Created\<rparr>,
                    \<lparr>fn = \<lambda>c. Return None, status = Finished None\<rparr>]\<rparr>)"
    by (simp add: scenario_D_def NewManager_def Register_def Shutdown_def step_defs Second_def
        word_sle_eq)
  then have "\<exists>sched' s'. run sched' (Shutdown scenario_D) = Some s'
          \<and> map status (tasks s') = [Created, Finished None]"
    by (intro exI conjI) (assumption, simp)
  ultimately show ?thesis using launched_prefix[OF i] step_appends_tasks by blast
qed

theorem launch_order_reversed_witness:
  "map fn (tasks (the (run schedule_D (Shutdown scenario_D))))
     = [\<lambda>c. Return (Some ''disconnect failed''), \<lambda>c. Return None]
   \<and> callbacks scenario_D = [\<lambda>c. Return None, \<lambda>c. Return (Some ''disconnect failed'')]"
proof -
  have r: "run schedule_D (Shutdown scenario_D) = Some (the (run schedule_D (Shutdown scenario_D)))"
    by (simp add: run_D)
  from launch_order_reversed[OF r] show ?thesis
    by (simp add: run_D) (simp add: scenario_D_def Register_def NewManager_def)
qed

text \<open>
  C5. Once a session has taken its snapshot (state \<open>s0\<close>), whatever happens next, any
  number of concurrent \<^verbatim>\<open>Register\<close> calls included: the snapshot stays what it was;
  the run with all registrations removed is a run too and ends in the same state but
  for the manager's registry, so registrations made after the snapshot change nothing
  of what the session launches, receives or logs; and every goroutine launched runs a
  callback of the snapshot.
\<close>

theorem snapshot_immutable:
  assumes "run sched0 (Shutdown m) = Some s0" "snapshot_taken s0" "run sched s0 = Some s"
  shows "snap s = snap s0
    \<and> run (filter (\<lambda>a. \<not> registration a) sched) s0 = Some (s\<lparr>mgr := mgr s0\<rparr>)
    \<and> set (map fn (tasks s)) \<subseteq> set (snap s0)"
proof -
  from run_ignores_registrations[OF assms(3,2), of "mgr s0"]
  have a: "snap s = snap s0"
    "run (filter (\<lambda>a. \<not> registration a) sched) s0 = Some (s\<lparr>mgr := mgr s0\<rparr>)"
    by simp_all
  from assms(1,3) have "run (sched0 @ sched) (Shutdown m) = Some s" by (simp add: run_append)
  from launched_prefix[OF inv_run[OF this]] have "set (map fn (tasks s)) \<subseteq> set (rev (snap s))"
    by (metis set_take_subset)
  with a show ?thesis by simp
qed

definition schedule_late :: "action list" where
  "schedule_late =
     [Reg (\<lambda>c. Return (Some ''late'')), Main, Main, Task 0, Task 0, Task 0, Main, Main, Main,
      Task 1, Task 1, Task 1, Waiter, Waiter, Main, Main, Main, Main, Main]"

theorem snapshot_immutable_witness:
  "snapshot_taken (the (run [Main, Main] (Shutdown scenario_D)))
   \<and> map_option (\<lambda>s. (callbacks (mgr s), snap s, map fn (tasks s), main_logs s))
       (run schedule_late (the (run [Main, Main] (Shutdown scenario_D))))
     = Some ([\<lambda>c. Return None, \<lambda>c. Return (Some ''disconnect failed''), \<lambda>c. Return (Some ''late'')],
             [\<lambda>c. Return None, \<lambda>c. Return (Some ''disconnect failed'')],
             [\<lambda>c. Return (Some ''disconnect failed''), \<lambda>c. Return None],
             [completed, failed ''disconnect failed''])"
proof -
  define s0 where "s0 = the (run [Main, Main] (Shutdown scenario_D))"
  have s0: "run [Main, Main] (Shutdown scenario_D) = Some s0"
    "s0 = (Shutdown scenario_D)\<lparr>pc := MakeChan, ctx := Some (WithTimeout Second),
            snap := callbacks scenario_D\<rparr>"
    by (simp_all add: s0_def scenario_D_def NewManager_def Register_def Shutdown_def step_defs
        Second_def word_sle_eq)
  have t: "snapshot_taken s0" by (simp add: s0(2) snapshot_taken_def)
  define s where "s = the (run schedule_late s0)"
  have s: "run schedule_late s0 = Some s"
    "(callbacks (mgr s), snap s, map fn (tasks s), main_logs s)
       = ([\<lambda>c. Return None, \<lambda>c. Return (Some ''disconnect failed''), \<lambda>c. Return (Some ''late'')],
          [\<lambda>c. Return None, \<lambda>c. Return (Some ''disconnect failed'')],
          [\<lambda>c. Return (Some ''disconnect failed''), \<lambda>c. Return None],
          [completed, failed ''disconnect failed''])"
    by (simp_all add: s_def s0(2) schedule_late_def scenario_D_def NewManager_def Register_def
        Shutdown_def step_defs main_logs_def completed_def failed_def Second_def word_sle_eq)
  from snapshot_immutable[OF s0(1) t s(1)] t s show ?thesis
    unfolding s0_def [symmetric] by simp
qed

text \<open>
  What does hold on the timeout path: once the context is done, the main goroutine
  needs no other goroutine to go from the \<^verbatim>\<open>select\<close> to its return; and an error is
  logged only if the goroutine of some operation has sent it.
\<close>

lemma timeout_path_never_blocks:
  assumes "run sched (Shutdown m) = Some s" "\<not> panicked s" "ctx_done s"
  shows "(pc s = Select \<longrightarrow> step Timeout s \<noteq> None)
    \<and> (pc s = CloseErr \<or> pc s = Drain \<or> pc s = Cancel \<longrightarrow> step Main s \<noteq> None)"
proof -
  from inv_run[OF assms(1)] have "inv_shape s" by (simp add: session_inv_def)
  then have "pc s = Drain \<longrightarrow> errClosed s" by (auto simp: inv_shape_def)
  with assms(2,3) show ?thesis
    by (auto simp: step_def timeout_step_def main_step_at split: list.splits)
qed

lemma reported_were_sent:
  assumes "run sched (Shutdown m) = Some s"
  shows "mset (reported s) \<subseteq># sent_all s"
proof -
  from inv_run[OF assms] have "mset (reported s) + mset (errChan s) = sent_all s"
    by (simp add: session_inv_def inv_chan_def)
  then show ?thesis by (metis mset_subset_eq_add_left)
qed

end
